theory Spec2Isabelle
  imports Complex_Main
begin

section \<open>Values, exceptions and the environment\<close>

text \<open>
  The model covers \<^verbatim>\<open>cocaine/detail/secadaptor.py\<close> and
  \<^verbatim>\<open>cocaine/detail/repository.py\<close>.

  Python values that travel through the adaptor (arguments, credentials, the stored
  token) are values of \<open>pyval\<close>. Every coroutine is modelled by the value it
  finally returns or the exception it finally raises; an exception is a value
  \<open>Inl err\<close> of the result type. Only subclasses of \<^verbatim>\<open>Exception\<close> are modelled,
  each with the text \<^verbatim>\<open>str(err)\<close> gives, since that text is what
  \<^verbatim>\<open>_get_token\<close> formats into its own error.
\<close>

datatype pyval = PyNone | PyStr string | PyInt int | PyDict "(pyval \<times> pyval) list"

datatype exn = Exception string | SecureServiceError string

fun str_exn :: "exn \<Rightarrow> string" where
  "str_exn (Exception m) = m"
| "str_exn (SecureServiceError m) = m"

type_synonym ref = nat

type_synonym kwargs = "string \<rightharpoonup> pyval"

text \<open>
  Keyword arguments are a dictionary from names to values; the order of its keys is not
  modelled.
\<close>

text \<open>
  What the adaptor and the providers do to the outside world is recorded as a trace:
  the adaptor calling \<^verbatim>\<open>fetch_token\<close> on its provider, a provider sending a
  request to its ticket service, and the adaptor calling a method of the wrapped handle.
\<close>

datatype event =
    FetchToken
  | TicketRequest ref string "pyval list"
  | Forward (fw_handle: ref) (fw_name: string) (fw_args: "pyval list") (fw_kwargs: kwargs)

fun is_fetch :: "event \<Rightarrow> bool" where
  "is_fetch FetchToken = True"
| "is_fetch _ = False"

fun is_ticket_request :: "event \<Rightarrow> bool" where
  "is_ticket_request (TicketRequest _ _ _) = True"
| "is_ticket_request _ = False"

fun is_forward :: "event \<Rightarrow> bool" where
  "is_forward (Forward _ _ _ _) = True"
| "is_forward _ = False"

text \<open>
  What the outside world answers during one intercepted call: the reading of
  \<^verbatim>\<open>time.time()\<close> in the expiry test, the reading taken after the fetch has
  returned, the outcome of the exchange with the ticket service (the request and
  \<^verbatim>\<open>channel.rx.get()\<close>; the ticket is the text \<^verbatim>\<open>format\<close> inserts), and the
  behaviour of the handles. Clock readings and the interval are real numbers; the
  rounding of floating-point addition is not modelled.
\<close>

record env =
  t_check :: real
  t_store :: real
  ticket :: "exn + string"
  handle :: "ref \<Rightarrow> string \<Rightarrow> pyval list \<Rightarrow> kwargs \<Rightarrow> exn + pyval"

section \<open>Token providers\<close>

record credentials =
  client_id :: pyval
  client_secret :: pyval

definition make_token :: "string \<Rightarrow> string \<Rightarrow> string" where
  "make_token auth_type tk = auth_type @ '' '' @ tk"

definition TVM_TYPE :: string where
  "TVM_TYPE = ''TVM''"

definition TVM2_TYPE :: string where
  "TVM2_TYPE = ''TVM2''"

text \<open>
  The three classes with a \<^verbatim>\<open>fetch_token\<close> method. The service of \<open>TVM\<close> and
  \<open>TVM2\<close> is \<open>None\<close> when \<^verbatim>\<open>create_secure_provider\<close> was given no ticket
  service; looking up the request method on \<^verbatim>\<open>None\<close> then raises before anything
  is sent.
\<close>

datatype provider =
    Promiscuous
  | TVM "ref option" credentials
  | TVM2 "ref option" credentials

fun fetch_token :: "provider \<Rightarrow> env \<Rightarrow> (exn + string) \<times> event list" where
  "fetch_token Promiscuous e = (Inr '''', [])"
| "fetch_token (TVM None cr) e =
     (Inl (Exception ''NoneType object has no attribute ticket_full''), [])"
| "fetch_token (TVM (Some s) cr) e =
     (case ticket e of
        Inl err \<Rightarrow> Inl err
      | Inr tk \<Rightarrow> Inr (make_token TVM_TYPE tk),
      [TicketRequest s ''ticket_full''
         [client_id cr, client_secret cr, PyStr ''client_credentials'', PyDict []]])"
| "fetch_token (TVM2 None cr) e =
     (Inl (Exception ''NoneType object has no attribute ticket''), [])"
| "fetch_token (TVM2 (Some s) cr) e =
     (case ticket e of
        Inl err \<Rightarrow> Inl err
      | Inr tk \<Rightarrow> Inr (make_token TVM2_TYPE tk),
      [TicketRequest s ''ticket'' [client_id cr, client_secret cr]])"

section \<open>The secure adaptor\<close>

record adaptor =
  wrapped :: ref
  secure :: provider
  token_expiration_s :: real
  token :: pyval
  to_expire :: real

definition SecureServiceAdaptor :: "ref \<Rightarrow> provider \<Rightarrow> real \<Rightarrow> adaptor" where
  "SecureServiceAdaptor w s ts =
     \<lparr>wrapped = w, secure = s, token_expiration_s = ts, token = PyNone, to_expire = 0\<rparr>"

text \<open>
  \<^verbatim>\<open>_get_token\<close>: the result, the adaptor afterwards, and the trace. The two
  assignments happen only after \<^verbatim>\<open>fetch_token\<close> has returned a token.
\<close>

definition get_token :: "env \<Rightarrow> adaptor \<Rightarrow> (exn + pyval) \<times> adaptor \<times> event list" where
  "get_token e a =
     (if t_check e \<ge> to_expire a then
        (case fetch_token (secure a) e of
           (Inl err, evs) \<Rightarrow>
             (Inl (SecureServiceError (''failed to fetch secure token: '' @ str_exn err)),
              a, FetchToken # evs)
         | (Inr tk, evs) \<Rightarrow>
             (let a' = a\<lparr>token := PyStr tk,
                          to_expire := t_store e + token_expiration_s a\<rparr>
              in (Inr (token a'), a', FetchToken # evs)))
      else (Inr (token a), a, []))"

text \<open>
  The \<^verbatim>\<open>wrapper\<close> that \<^verbatim>\<open>__getattr__\<close> returns for a method name, applied to
  the caller's arguments.
\<close>

definition wrapper ::
  "env \<Rightarrow> adaptor \<Rightarrow> string \<Rightarrow> pyval list \<Rightarrow> kwargs \<Rightarrow> (exn + pyval) \<times> adaptor \<times> event list" where
  "wrapper e a name args kw =
     (case get_token e a of
        (Inl err, a', evs) \<Rightarrow> (Inl err, a', evs)
      | (Inr tok, a', evs) \<Rightarrow>
          (let kw' = kw(''authorization'' \<mapsto> tok)
           in (handle e (wrapped a') name args kw', a',
               evs @ [Forward (wrapped a') name args kw'])))"

text \<open>
  A sequence of intercepted calls on one adaptor, each with the answers of the outside
  world during that call. The calls follow one another: a call starts when the one before
  it has returned, so calls that overlap on the event loop are not part of the model.
\<close>

record call =
  c_env :: env
  c_name :: string
  c_args :: "pyval list"
  c_kwargs :: kwargs

fun run :: "adaptor \<Rightarrow> call list \<Rightarrow> (exn + pyval) list \<times> adaptor \<times> event list" where
  "run a [] = ([], a, [])"
| "run a (c # cs) =
     (case wrapper (c_env c) a (c_name c) (c_args c) (c_kwargs c) of
        (r, a', tr) \<Rightarrow>
          (case run a' cs of (rs, a'', tr') \<Rightarrow> (r # rs, a'', tr @ tr')))"

text \<open>
  A clock that does not run backwards: every reading of a sequence of calls is at least
  the one before it, starting from \<open>t\<close>.
\<close>

fun clock_from :: "real \<Rightarrow> env list \<Rightarrow> bool" where
  "clock_from t [] = True"
| "clock_from t (e # es) = (t \<le> t_check e \<and> t_check e \<le> t_store e \<and> clock_from (t_store e) es)"

section \<open>Handles and the objects of the heap\<close>

text \<open>
  Modelled from the spec: the classes \<^verbatim>\<open>Service\<close> and \<^verbatim>\<open>Locator\<close> and the
  constant \<^verbatim>\<open>LOCATOR_SERVICE_NAME\<close> live in modules that are not part of the
  sources at hand. Constructing a handle creates a new object and opens nothing (the
  connection belongs to the handle's own life cycle), so a constructor is an allocation on
  a heap of objects, and a reference is the position of the object in the heap. The reserved
  name of the locator is a parameter \<open>lsn\<close> of the functions that compare with it.
\<close>

type_synonym endpoint = "string \<times> nat"

datatype locate = Endpoints "endpoint list" | ViaLocator ref

datatype obj =
    LocatorObj "endpoint list"
  | ServiceObj string locate
  | AdaptorObj adaptor

type_synonym heap = "obj list"

definition alloc :: "obj \<Rightarrow> heap \<Rightarrow> ref \<times> heap" where
  "alloc ob h = (length h, h @ [ob])"

definition Locator :: "endpoint list \<Rightarrow> heap \<Rightarrow> ref \<times> heap" where
  "Locator eps h = alloc (LocatorObj eps) h"

definition Service :: "string \<Rightarrow> locate \<Rightarrow> heap \<Rightarrow> ref \<times> heap" where
  "Service name loc h = alloc (ServiceObj name loc) h"

fun is_service :: "string \<Rightarrow> obj \<Rightarrow> bool" where
  "is_service n (ServiceObj m _) = (m = n)"
| "is_service n _ = False"

section \<open>Choosing the provider\<close>

definition create_ticket_service :: "string \<Rightarrow> endpoint list \<Rightarrow> heap \<Rightarrow> ref option \<times> heap" where
  "create_ticket_service mode eps h =
     (if mode = TVM_TYPE then
        (case Service ''tvm'' (Endpoints eps) h of (r, h') \<Rightarrow> (Some r, h'))
      else if mode = TVM2_TYPE then
        (case Service ''tvm2'' (Endpoints eps) h of (r, h') \<Rightarrow> (Some r, h'))
      else (None, h))"

text \<open>
  \<^verbatim>\<open>Credentials(**kwargs)\<close>: the named tuple takes exactly the two keywords
  \<^verbatim>\<open>client_id\<close> and \<^verbatim>\<open>client_secret\<close> and raises a \<^verbatim>\<open>TypeError\<close> otherwise.
\<close>

definition Credentials :: "kwargs \<Rightarrow> exn + credentials" where
  "Credentials kw =
     (case (kw ''client_id'', kw ''client_secret'') of
        (Some i, Some s) \<Rightarrow>
          (if dom kw \<subseteq> {''client_id'', ''client_secret''}
           then Inr \<lparr>client_id = i, client_secret = s\<rparr>
           else Inl (Exception ''TypeError''))
      | _ \<Rightarrow> Inl (Exception ''TypeError''))"

definition create_secure_provider :: "string \<Rightarrow> ref option \<Rightarrow> kwargs \<Rightarrow> exn + provider" where
  "create_secure_provider mode ticket_service kw =
     (if mode = TVM_TYPE then
        (case Credentials kw of Inl err \<Rightarrow> Inl err | Inr cr \<Rightarrow> Inr (TVM ticket_service cr))
      else if mode = TVM2_TYPE then
        (case Credentials kw of Inl err \<Rightarrow> Inl err | Inr cr \<Rightarrow> Inr (TVM2 ticket_service cr))
      else Inr Promiscuous)"

text \<open>
  The call \<^verbatim>\<open>create_secure_provider(mod, ticket_service, **kwargs)\<close> as both callers
  write it. The first two parameters are bound by position, so a keyword of the same name
  in \<^verbatim>\<open>kwargs\<close> gives the parameter a second value and the call raises a
  \<^verbatim>\<open>TypeError\<close> before the body runs. Both callers take \<^verbatim>\<open>mod\<close> as a parameter
  of their own, so their \<^verbatim>\<open>kwargs\<close> can hold \<^verbatim>\<open>ticket_service\<close> only.
\<close>

definition call_create_secure_provider ::
  "string \<Rightarrow> ref option \<Rightarrow> kwargs \<Rightarrow> exn + provider" where
  "call_create_secure_provider mode ticket_service kw =
     (case (kw ''mod'', kw ''ticket_service'') of
        (None, None) \<Rightarrow> create_secure_provider mode ticket_service kw
      | _ \<Rightarrow> Inl (Exception ''TypeError''))"

text \<open>
  \<^verbatim>\<open>SecureServiceFactory.make_secure_adaptor\<close>. The attribute
  \<^verbatim>\<open>service.endpoints\<close> of the handle is the argument \<open>service_endpoints\<close>;
  \<^verbatim>\<open>endpoints or service.endpoints\<close> takes it when \<open>endpoints\<close> is \<^verbatim>\<open>None\<close>
  or empty.
\<close>

definition make_secure_adaptor ::
  "ref \<Rightarrow> endpoint list \<Rightarrow> endpoint list option \<Rightarrow> string \<Rightarrow> real \<Rightarrow> kwargs \<Rightarrow> heap
     \<Rightarrow> exn + adaptor \<times> heap" where
  "make_secure_adaptor service service_endpoints endpoints mode ts kw h =
     (let eps = (case endpoints of
                   None \<Rightarrow> service_endpoints
                 | Some [] \<Rightarrow> service_endpoints
                 | Some es \<Rightarrow> es)
      in case create_ticket_service mode eps h of
           (ticket_service, h') \<Rightarrow>
             (case call_create_secure_provider mode ticket_service kw of
                Inl err \<Rightarrow> Inl err
              | Inr prov \<Rightarrow> Inr (SecureServiceAdaptor service prov ts, h')))"

section \<open>The repositories\<close>

record repository =
  locator :: ref
  cache :: "string \<rightharpoonup> ref"

record secure_repository = repository +
  repo_token_expiration_s :: real
  secure_provider :: provider
  cache_secured :: "string \<rightharpoonup> ref"

definition ServiceRepository :: "endpoint list \<Rightarrow> heap \<Rightarrow> repository \<times> heap" where
  "ServiceRepository eps h =
     (case Locator eps h of (l, h') \<Rightarrow> (\<lparr>locator = l, cache = Map.empty\<rparr>, h'))"

definition create_service ::
  "string \<Rightarrow> string \<Rightarrow> 'a repository_scheme \<Rightarrow> heap \<Rightarrow> ref \<times> 'a repository_scheme \<times> heap" where
  "create_service lsn name rp h =
     (case cache rp name of
        Some r \<Rightarrow> (r, rp, h)
      | None \<Rightarrow>
          (if name = lsn then (locator rp, rp, h)
           else (case Service name (ViaLocator (locator rp)) h of
                   (r, h') \<Rightarrow> (r, rp\<lparr>cache := (cache rp)(name \<mapsto> r)\<rparr>, h'))))"

definition SecureServiceRepository ::
  "endpoint list \<Rightarrow> string \<Rightarrow> real \<Rightarrow> kwargs \<Rightarrow> heap \<Rightarrow> exn + secure_repository \<times> heap" where
  "SecureServiceRepository eps mode ts kw h =
     (case ServiceRepository eps h of
        (rp, h1) \<Rightarrow>
          (case create_ticket_service mode eps h1 of
             (ticket_service, h2) \<Rightarrow>
               (case call_create_secure_provider mode ticket_service kw of
                  Inl err \<Rightarrow> Inl err
                | Inr prov \<Rightarrow>
                    Inr (\<lparr>locator = locator rp, cache = cache rp,
                          repo_token_expiration_s = ts, secure_provider = prov,
                          cache_secured = Map.empty\<rparr>, h2))))"

definition create_secure_service ::
  "string \<Rightarrow> string \<Rightarrow> secure_repository \<Rightarrow> heap \<Rightarrow> ref \<times> secure_repository \<times> heap" where
  "create_secure_service lsn name rp h =
     (case cache_secured rp name of
        Some r \<Rightarrow> (r, rp, h)
      | None \<Rightarrow>
          (case create_service lsn name rp h of
             (w, rp', h') \<Rightarrow>
               (case alloc (AdaptorObj (SecureServiceAdaptor w (secure_provider rp')
                                          (repo_token_expiration_s rp'))) h' of
                  (r, h'') \<Rightarrow>
                    (r, rp'\<lparr>cache_secured := (cache_secured rp')(name \<mapsto> r)\<rparr>, h''))))"

section \<open>Sequences of requests to a repository\<close>

text \<open>
  The life of a repository is a sequence of calls of its methods, each on the repository
  and the heap that the call before it left. \<open>resolve_all\<close> is a sequence of calls of
  \<^verbatim>\<open>create_service\<close>; \<open>serve_all\<close> mixes calls of \<^verbatim>\<open>create_service\<close> and of
  \<^verbatim>\<open>create_secure_service\<close> on a secure repository. Both return the references the
  calls returned, in order.
\<close>

fun resolve_all ::
  "string \<Rightarrow> string list \<Rightarrow> 'a repository_scheme \<Rightarrow> heap
     \<Rightarrow> ref list \<times> 'a repository_scheme \<times> heap" where
  "resolve_all lsn [] rp h = ([], rp, h)"
| "resolve_all lsn (n # ns) rp h =
     (case create_service lsn n rp h of
        (r, rp', h') \<Rightarrow>
          (case resolve_all lsn ns rp' h' of (rs, rp'', h'') \<Rightarrow> (r # rs, rp'', h'')))"

datatype request = Resolve string | ResolveSecure string

fun serve ::
  "string \<Rightarrow> request \<Rightarrow> secure_repository \<Rightarrow> heap \<Rightarrow> ref \<times> secure_repository \<times> heap" where
  "serve lsn (Resolve n) rp h = create_service lsn n rp h"
| "serve lsn (ResolveSecure n) rp h = create_secure_service lsn n rp h"

fun serve_all ::
  "string \<Rightarrow> request list \<Rightarrow> secure_repository \<Rightarrow> heap
     \<Rightarrow> ref list \<times> secure_repository \<times> heap" where
  "serve_all lsn [] rp h = ([], rp, h)"
| "serve_all lsn (q # qs) rp h =
     (case serve lsn q rp h of
        (r, rp', h') \<Rightarrow>
          (case serve_all lsn qs rp' h' of (rs, rp'', h'') \<Rightarrow> (r # rs, rp'', h'')))"

text \<open>
  What a repository answers to \<^verbatim>\<open>create_service\<close> without constructing anything:
  the cached handle of the name, or its locator for the reserved name. \<open>services n h\<close>
  counts the \<^verbatim>\<open>Service\<close> objects of name \<open>n\<close> in a heap.
\<close>

definition known :: "string \<Rightarrow> 'a repository_scheme \<Rightarrow> string \<Rightarrow> ref \<Rightarrow> bool" where
  "known lsn rp n r =
     (cache rp n = Some r \<or> (cache rp n = None \<and> n = lsn \<and> locator rp = r))"

definition services :: "string \<Rightarrow> heap \<Rightarrow> nat" where
  "services n h = length (filter (is_service n) h)"

fun remembered :: "string \<Rightarrow> secure_repository \<Rightarrow> request \<Rightarrow> ref \<Rightarrow> bool" where
  "remembered lsn rp (Resolve n) r = known lsn rp n r"
| "remembered lsn rp (ResolveSecure n) r = (cache_secured rp n = Some r)"

text \<open>
  Every cached adaptor is an object of the heap and wraps the handle that
  \<^verbatim>\<open>create_service\<close> answers for its name.
\<close>

definition wraps_cached :: "string \<Rightarrow> secure_repository \<Rightarrow> heap \<Rightarrow> bool" where
  "wraps_cached lsn rp h =
     (\<forall>n r. cache_secured rp n = Some r \<longrightarrow>
        r < length h \<and> (\<exists>a. h ! r = AdaptorObj a \<and> known lsn rp n (wrapped a)))"

section \<open>Sample inputs\<close>

text \<open>
  Concrete inputs for the instances below: a handle that answers with the
  \<^verbatim>\<open>authorization\<close> argument it received, a world with given clock readings and a
  given answer of the ticket service, and a pair of credentials.
\<close>

abbreviation echo :: "ref \<Rightarrow> string \<Rightarrow> pyval list \<Rightarrow> kwargs \<Rightarrow> exn + pyval" where
  "echo \<equiv> (\<lambda>r n as kw. case kw ''authorization'' of
                            None \<Rightarrow> Inl (Exception ''unauthorized'')
                          | Some v \<Rightarrow> Inr v)"

abbreviation world :: "real \<Rightarrow> real \<Rightarrow> exn + string \<Rightarrow> env" where
  "world tc ts tk \<equiv> \<lparr>t_check = tc, t_store = ts, ticket = tk, handle = echo\<rparr>"

abbreviation creds :: credentials where
  "creds \<equiv> \<lparr>client_id = PyStr ''id'', client_secret = PyStr ''secret''\<rparr>"

abbreviation get_at :: "real \<Rightarrow> real \<Rightarrow> exn + string \<Rightarrow> call" where
  "get_at tc ts tk \<equiv>
     \<lparr>c_env = world tc ts tk, c_name = ''get'', c_args = [PyStr ''key''], c_kwargs = Map.empty\<rparr>"

section \<open>One call of the adaptor\<close>

lemma get_token_fail:
  assumes "to_expire a \<le> t_check e" and "fst (fetch_token (secure a) e) = Inl err"
  shows "get_token e a =
           (Inl (SecureServiceError (''failed to fetch secure token: '' @ str_exn err)), a,
            FetchToken # snd (fetch_token (secure a) e))"
  using assms by (cases "fetch_token (secure a) e") (simp add: get_token_def)

lemma get_token_ok:
  assumes "to_expire a \<le> t_check e" and "fst (fetch_token (secure a) e) = Inr tk"
  shows "get_token e a =
           (Inr (PyStr tk),
            a\<lparr>token := PyStr tk, to_expire := t_store e + token_expiration_s a\<rparr>,
            FetchToken # snd (fetch_token (secure a) e))"
  using assms by (cases "fetch_token (secure a) e") (simp add: get_token_def)

lemma get_token_reuse:
  assumes "t_check e < to_expire a"
  shows "get_token e a = (Inr (token a), a, [])"
  using assms by (simp add: get_token_def)

lemma fetch_token_no_forward: "filter is_forward (snd (fetch_token p e)) = []"
  by (induction p e rule: fetch_token.induct) simp_all

lemma fetch_token_no_fetch: "filter is_fetch (snd (fetch_token p e)) = []"
  by (induction p e rule: fetch_token.induct) simp_all

lemma get_token_cases:
  obtains (reuse) "t_check e < to_expire a" "get_token e a = (Inr (token a), a, [])"
  | (fail) err where "to_expire a \<le> t_check e" "fst (fetch_token (secure a) e) = Inl err"
      "get_token e a =
         (Inl (SecureServiceError (''failed to fetch secure token: '' @ str_exn err)), a,
          FetchToken # snd (fetch_token (secure a) e))"
  | (fetched) tk where "to_expire a \<le> t_check e" "fst (fetch_token (secure a) e) = Inr tk"
      "get_token e a =
         (Inr (PyStr tk),
          a\<lparr>token := PyStr tk, to_expire := t_store e + token_expiration_s a\<rparr>,
          FetchToken # snd (fetch_token (secure a) e))"
proof (cases "t_check e < to_expire a")
  case True
  then show ?thesis using reuse get_token_reuse by blast
next
  case False
  then have le: "to_expire a \<le> t_check e" by simp
  show ?thesis
  proof (cases "fst (fetch_token (secure a) e)")
    case (Inl err)
    then show ?thesis using fail le get_token_fail by blast
  next
    case (Inr tk)
    then show ?thesis using fetched le get_token_ok by blast
  qed
qed

lemma get_token_no_forward: "filter is_forward (snd (snd (get_token e a))) = []"
  by (cases e a rule: get_token_cases) (simp_all add: fetch_token_no_forward)

lemma get_token_wrapped: "wrapped (fst (snd (get_token e a))) = wrapped a"
  by (cases e a rule: get_token_cases) simp_all

lemma get_token_current: "fst (get_token e a) = Inr tok \<Longrightarrow> tok = token (fst (snd (get_token e a)))"
  by (cases e a rule: get_token_cases) simp_all

lemma wrapper_ok:
  assumes "fst (get_token e a) = Inr tok"
  shows "wrapper e a name args kw =
           (handle e (wrapped a) name args (kw(''authorization'' \<mapsto> tok)),
            fst (snd (get_token e a)),
            snd (snd (get_token e a))
              @ [Forward (wrapped a) name args (kw(''authorization'' \<mapsto> tok))])"
  using assms get_token_wrapped[of e a]
  by (cases "get_token e a") (simp add: wrapper_def Let_def)

lemma wrapper_fail:
  assumes "fst (get_token e a) = Inl err"
  shows "wrapper e a name args kw = (Inl err, snd (get_token e a))"
  using assms by (cases "get_token e a") (simp add: wrapper_def)


lemma wrapper_fetches:
  "length (filter is_fetch (snd (snd (wrapper e a name args kw))))
     = (if to_expire a \<le> t_check e then 1 else 0)"
  by (cases e a rule: get_token_cases)
     (simp_all add: wrapper_ok wrapper_fail fetch_token_no_fetch)

lemma wrapper_state:
  "fst (snd (wrapper e a name args kw)) =
     (if to_expire a \<le> t_check e then
        (case fst (fetch_token (secure a) e) of
           Inl err \<Rightarrow> a
         | Inr tk \<Rightarrow> a\<lparr>token := PyStr tk, to_expire := t_store e + token_expiration_s a\<rparr>)
      else a)"
  by (cases e a rule: get_token_cases) (simp_all add: wrapper_ok wrapper_fail)

section \<open>Token formats\<close>

text \<open>
  C8. Whatever ticket the ticket service returns, the TVM provider yields
  \<open>TVM\<close>, a space and the ticket, the TVM2 provider yields \<open>TVM2\<close>, a space
  and the ticket, and the Promiscuous provider yields the empty string.
\<close>

theorem fetch_token_format:
  assumes "ticket e = Inr tk"
  shows "fst (fetch_token (TVM (Some s) cr) e) = Inr (''TVM '' @ tk)
         \<and> fst (fetch_token (TVM2 (Some s) cr) e) = Inr (''TVM2 '' @ tk)
         \<and> fst (fetch_token Promiscuous e) = Inr ''''"
  using assms by (simp add: make_token_def TVM_TYPE_def TVM2_TYPE_def)

theorem fetch_token_format_witness:
  "fst (fetch_token (TVM (Some 5) creds) (world 100 101 (Inr ''abc''))) = Inr ''TVM abc''
   \<and> fst (fetch_token (TVM2 (Some 5) creds) (world 100 101 (Inr ''abc''))) = Inr ''TVM2 abc''
   \<and> fst (fetch_token Promiscuous (world 100 101 (Inr ''abc''))) = Inr ''''"
proof -
  have h: "ticket (world 100 101 (Inr ''abc'')) = Inr ''abc''" by simp
  show ?thesis
    using fetch_token_format[OF h, of 5 creds] by simp
qed

section \<open>Failure of the fetch\<close>

text \<open>
  C2. When the adaptor fetches during an intercepted call and the provider's fetch fails
  with \<open>err\<close>, the caller gets a \<open>SecureServiceError\<close> whose text is the token-fetch
  context followed by the text of \<open>err\<close>, and the trace of the call holds no call of the
  wrapped handle.
\<close>

theorem fetch_failure_aborts_call:
  assumes "to_expire a \<le> t_check e" and "fst (fetch_token (secure a) e) = Inl err"
  shows "fst (wrapper e a name args kw)
           = Inl (SecureServiceError (''failed to fetch secure token: '' @ str_exn err))
         \<and> filter is_forward (snd (snd (wrapper e a name args kw))) = []"
  using get_token_fail[OF assms] fetch_token_no_forward[of "secure a" e]
  by (simp add: wrapper_fail)

theorem fetch_failure_aborts_call_witness:
  "fst (wrapper (world 100 100 (Inl (Exception ''connection refused'')))
          (SecureServiceAdaptor 0 (TVM (Some 5) creds) 60) ''get'' [PyStr ''key''] Map.empty)
     = Inl (SecureServiceError ''failed to fetch secure token: connection refused'')
   \<and> filter is_forward (snd (snd (wrapper (world 100 100 (Inl (Exception ''connection refused'')))
          (SecureServiceAdaptor 0 (TVM (Some 5) creds) 60) ''get'' [PyStr ''key''] Map.empty))) = []"
proof -
  let ?a = "SecureServiceAdaptor 0 (TVM (Some 5) creds) 60"
  let ?e = "world 100 100 (Inl (Exception ''connection refused''))"
  have h1: "to_expire ?a \<le> t_check ?e" by (simp add: SecureServiceAdaptor_def)
  have h2: "fst (fetch_token (secure ?a) ?e) = Inl (Exception ''connection refused'')"
    by (simp add: SecureServiceAdaptor_def)
  show ?thesis
    using fetch_failure_aborts_call[OF h1 h2, of "''get''" "[PyStr ''key'']" Map.empty] by simp
qed

text \<open>
  C7. A call whose fetch fails leaves the adaptor as it was: the stored token and the
  stored expiry (and every other field) are those from before the call.
\<close>

theorem failed_fetch_keeps_state:
  assumes "to_expire a \<le> t_check e" and "fst (fetch_token (secure a) e) = Inl err"
  shows "fst (snd (wrapper e a name args kw)) = a"
  using get_token_fail[OF assms] by (simp add: wrapper_fail)

theorem failed_fetch_keeps_state_witness:
  "fst (snd (wrapper (world 200 200 (Inl (Exception ''timeout'')))
          \<lparr>wrapped = 0, secure = TVM2 (Some 5) creds, token_expiration_s = 60,
            token = PyStr ''TVM2 abc'', to_expire = 160\<rparr> ''get'' [] Map.empty))
     = \<lparr>wrapped = 0, secure = TVM2 (Some 5) creds, token_expiration_s = 60,
         token = PyStr ''TVM2 abc'', to_expire = 160\<rparr>"
proof -
  let ?a = "\<lparr>wrapped = 0, secure = TVM2 (Some 5) creds, token_expiration_s = 60,
             token = PyStr ''TVM2 abc'', to_expire = 160\<rparr>"
  let ?e = "world 200 200 (Inl (Exception ''timeout''))"
  have h1: "to_expire ?a \<le> t_check ?e" by simp
  have h2: "fst (fetch_token (secure ?a) ?e) = Inl (Exception ''timeout'')" by simp
  show ?thesis
    using failed_fetch_keeps_state[OF h1 h2, of "''get''" "[]" Map.empty] by simp
qed

section \<open>Injection of the token\<close>

text \<open>
  C5. When the token is resolved to \<open>tok\<close>, the wrapped handle is called once, on the
  method of the same name, with the caller's positional arguments and with the caller's
  keyword arguments in which \<^verbatim>\<open>authorization\<close> is bound to \<open>tok\<close>, the token the
  adaptor holds after the resolution; every other keyword is as the caller gave it, and
  the caller gets what the handle answered, a value or an error.
\<close>

theorem injection_correct:
  assumes "fst (get_token e a) = Inr tok"
  shows "wrapper e a name args kw =
           (handle e (wrapped a) name args (kw(''authorization'' \<mapsto> tok)),
            fst (snd (get_token e a)),
            snd (snd (get_token e a))
              @ [Forward (wrapped a) name args (kw(''authorization'' \<mapsto> tok))])
         \<and> tok = token (fst (snd (get_token e a)))
         \<and> filter is_forward (snd (snd (get_token e a))) = []
         \<and> (\<forall>k. k \<noteq> ''authorization'' \<longrightarrow> (kw(''authorization'' \<mapsto> tok)) k = kw k)"
  using wrapper_ok[OF assms] get_token_current[OF assms] get_token_no_forward[of e a]
  by simp

theorem injection_correct_witness:
  "wrapper (world 100 101 (Inr ''abc'')) (SecureServiceAdaptor 0 (TVM (Some 5) creds) 60)
      ''get'' [PyStr ''key''] [''timeout'' \<mapsto> PyInt 5]
     = (Inr (PyStr ''TVM abc''),
        \<lparr>wrapped = 0, secure = TVM (Some 5) creds, token_expiration_s = 60,
          token = PyStr ''TVM abc'', to_expire = 161\<rparr>,
        [FetchToken,
         TicketRequest 5 ''ticket_full''
           [PyStr ''id'', PyStr ''secret'', PyStr ''client_credentials'', PyDict []],
         Forward 0 ''get'' [PyStr ''key'']
           [''timeout'' \<mapsto> PyInt 5, ''authorization'' \<mapsto> PyStr ''TVM abc'']])"
proof -
  let ?a = "SecureServiceAdaptor 0 (TVM (Some 5) creds) 60"
  let ?e = "world 100 101 (Inr ''abc'')"
  have g: "get_token ?e ?a =
             (Inr (PyStr ''TVM abc''),
              \<lparr>wrapped = 0, secure = TVM (Some 5) creds, token_expiration_s = 60,
                token = PyStr ''TVM abc'', to_expire = 161\<rparr>,
              [FetchToken,
               TicketRequest 5 ''ticket_full''
                 [PyStr ''id'', PyStr ''secret'', PyStr ''client_credentials'', PyDict []]])"
    by (simp add: get_token_def SecureServiceAdaptor_def make_token_def TVM_TYPE_def)
  have h: "fst (get_token ?e ?a) = Inr (PyStr ''TVM abc'')" by (simp add: g)
  have w: "wrapped ?a = 0" by (simp add: SecureServiceAdaptor_def)
  show ?thesis
    using injection_correct[OF h, of "''get''" "[PyStr ''key'']" "[''timeout'' \<mapsto> PyInt 5]"]
    by (simp add: g w)
qed

text \<open>
  C10. A keyword argument \<^verbatim>\<open>authorization\<close> given by the caller has no effect: the
  call does exactly what it does without that argument, and every call of the wrapped
  handle in its trace carries the adaptor's own token under \<^verbatim>\<open>authorization\<close>.
\<close>

theorem caller_authorization_overwritten:
  "wrapper e a name args (kw(''authorization'' \<mapsto> v))
     = wrapper e a name args (kw(''authorization'' := None))
   \<and> (\<forall>ev \<in> set (snd (snd (wrapper e a name args (kw(''authorization'' \<mapsto> v))))).
         is_forward ev \<longrightarrow>
           fw_kwargs ev ''authorization''
             = Some (token (fst (snd (wrapper e a name args (kw(''authorization'' \<mapsto> v)))))))"
proof (cases "fst (get_token e a)")
  case (Inl err)
  then show ?thesis
    using get_token_no_forward[of e a]
    by (auto simp: wrapper_fail filter_empty_conv)
next
  case (Inr tok)
  have nf: "\<forall>ev \<in> set (snd (snd (get_token e a))). \<not> is_forward ev"
    using get_token_no_forward[of e a] by (simp add: filter_empty_conv)
  show ?thesis
    using nf get_token_current[OF Inr] by (auto simp: wrapper_ok[OF Inr])
qed

theorem caller_authorization_overwritten_witness:
  "is_forward (last (snd (snd (wrapper (world 100 101 (Inr ''abc''))
       (SecureServiceAdaptor 0 (TVM (Some 5) creds) 60) ''get'' []
       [''authorization'' \<mapsto> PyStr ''forged'']))))
   \<and> fw_kwargs (last (snd (snd (wrapper (world 100 101 (Inr ''abc''))
       (SecureServiceAdaptor 0 (TVM (Some 5) creds) 60) ''get'' []
       [''authorization'' \<mapsto> PyStr ''forged''])))) ''authorization''
     = Some (PyStr ''TVM abc'')"
proof -
  let ?w = "wrapper (world 100 101 (Inr ''abc''))
       (SecureServiceAdaptor 0 (TVM (Some 5) creds) 60) ''get'' []
       [''authorization'' \<mapsto> PyStr ''forged'']"
  have w: "?w =
     (Inr (PyStr ''TVM abc''),
        \<lparr>wrapped = 0, secure = TVM (Some 5) creds, token_expiration_s = 60,
          token = PyStr ''TVM abc'', to_expire = 161\<rparr>,
        [FetchToken,
         TicketRequest 5 ''ticket_full''
           [PyStr ''id'', PyStr ''secret'', PyStr ''client_credentials'', PyDict []],
         Forward 0 ''get'' [] [''authorization'' \<mapsto> PyStr ''TVM abc'']])"
    by (simp add: wrapper_def get_token_def SecureServiceAdaptor_def make_token_def
          TVM_TYPE_def Let_def)
  have m: "last (snd (snd ?w)) \<in> set (snd (snd ?w))" by (simp add: w)
  have f: "is_forward (last (snd (snd ?w)))" by (simp add: w)
  have c: "\<forall>ev \<in> set (snd (snd ?w)).
             is_forward ev \<longrightarrow> fw_kwargs ev ''authorization'' = Some (token (fst (snd ?w)))"
    using caller_authorization_overwritten[of "world 100 101 (Inr ''abc'')"
        "SecureServiceAdaptor 0 (TVM (Some 5) creds) 60" "''get''" "[]" Map.empty
        "PyStr ''forged''"]
    by (rule conjunct2)
  from c m f have "fw_kwargs (last (snd (snd ?w))) ''authorization''
                     = Some (token (fst (snd ?w)))"
    by blast
  moreover have "token (fst (snd ?w)) = PyStr ''TVM abc''" by (simp add: w)
  ultimately show ?thesis using f by simp
qed

section \<open>Expiry of the token\<close>

lemma run_fetches_zero_interval:
  "token_expiration_s a = 0 \<Longrightarrow> to_expire a \<le> t \<Longrightarrow> clock_from t (map c_env cs)
     \<Longrightarrow> length (filter is_fetch (snd (snd (run a cs)))) = length cs"
proof (induction cs arbitrary: a t)
  case Nil
  then show ?case by simp
next
  case (Cons c cs)
  let ?w = "wrapper (c_env c) a (c_name c) (c_args c) (c_kwargs c)"
  let ?a' = "fst (snd ?w)"
  from Cons.prems have exp: "to_expire a \<le> t_check (c_env c)" by simp
  have T: "token_expiration_s ?a' = 0"
    using Cons.prems(1) by (simp add: wrapper_state split: sum.splits)
  have E: "to_expire ?a' \<le> t_store (c_env c)"
    using Cons.prems by (simp add: wrapper_state split: sum.splits)
  from Cons.prems have C: "clock_from (t_store (c_env c)) (map c_env cs)" by simp
  have IH: "length (filter is_fetch (snd (snd (run ?a' cs)))) = length cs"
    by (rule Cons.IH[OF T E C])
  have F: "length (filter is_fetch (snd (snd ?w))) = 1"
    using exp by (simp add: wrapper_fetches)
  show ?case using IH F
    by (simp add: split_beta)
qed

text \<open>
  C1, as the code has it. With the interval 0 the constructor fetches nothing, and the
  expiry stored by a fetch is the clock reading taken when the fetch returned, so a later
  call finds the token expired as soon as the clock reads that value or more: on a clock
  that starts at 0 or later and does not run backwards, every intercepted call fetches,
  the first as well as each later one.
\<close>

theorem zero_interval_fetches_every_call:
  assumes "clock_from 0 (map c_env cs)"
  shows "token (SecureServiceAdaptor w p 0) = PyNone
         \<and> length (filter is_fetch (snd (snd (run (SecureServiceAdaptor w p 0) cs)))) = length cs"
  using run_fetches_zero_interval[of "SecureServiceAdaptor w p 0" 0 cs] assms
  by (simp add: SecureServiceAdaptor_def)

theorem zero_interval_fetches_every_call_witness:
  "clock_from 0 (map c_env [get_at 100 101 (Inr ''abc''), get_at 130 131 (Inr ''xyz'')])
   \<and> length (filter is_fetch (snd (snd (run (SecureServiceAdaptor 0 (TVM (Some 5) creds) 0)
        [get_at 100 101 (Inr ''abc''), get_at 130 131 (Inr ''xyz'')])))) = 2"
proof -
  have h: "clock_from 0 (map c_env [get_at 100 101 (Inr ''abc''), get_at 130 131 (Inr ''xyz'')])"
    by simp
  show ?thesis
    using h zero_interval_fetches_every_call[OF h, of 0 "TVM (Some 5) creds"] by simp
qed

text \<open>
  Reuse for the adaptor's lifetime does not hold: an adaptor with interval 0 and two calls
  while the clock reads 100. The first fetch succeeds and stores the token for ticket \<open>abc\<close>; the second
  call fetches again and forwards the token for ticket \<open>xyz\<close>.
\<close>

theorem zero_interval_counterexample:
  "fst (run (SecureServiceAdaptor 0 (TVM (Some 5) creds) 0)
          [get_at 100 100 (Inr ''abc''), get_at 100 100 (Inr ''xyz'')])
     = [Inr (PyStr ''TVM abc''), Inr (PyStr ''TVM xyz'')]
   \<and> length (filter is_fetch (snd (snd (run (SecureServiceAdaptor 0 (TVM (Some 5) creds) 0)
          [get_at 100 100 (Inr ''abc''), get_at 100 100 (Inr ''xyz'')])))) = 2"
  by (simp add: wrapper_def get_token_def SecureServiceAdaptor_def Let_def make_token_def
        TVM_TYPE_def)




section \<open>The cache of handles\<close>

lemma known_fun: "known lsn rp n r \<Longrightarrow> known lsn rp n r' \<Longrightarrow> r = r'"
  by (auto simp: known_def)

lemma create_service_known:
  "create_service lsn n rp h = (r, rp', h') \<Longrightarrow> known lsn rp' n r"
  by (auto simp: create_service_def known_def Service_def alloc_def split: option.splits if_splits)

lemma create_service_keeps_known:
  "known lsn rp m r \<Longrightarrow> create_service lsn n rp h = (r', rp', h') \<Longrightarrow> known lsn rp' m r"
  by (auto simp: create_service_def known_def Service_def alloc_def split: option.splits if_splits)

lemma known_create_service:
  "known lsn rp n r \<Longrightarrow> create_service lsn n rp h = (r, rp, h)"
  by (auto simp: create_service_def known_def split: option.splits)

lemma create_service_heap:
  "create_service lsn n rp h = (r, rp', h') \<Longrightarrow> \<exists>xs. h' = h @ xs"
  by (auto simp: create_service_def Service_def alloc_def split: option.splits if_splits)

lemma create_service_services:
  "create_service lsn m rp h = (r, rp', h') \<Longrightarrow>
     services n h' + (if n \<in> dom (cache rp) then 1 else 0)
       = services n h + (if n \<in> dom (cache rp') then 1 else 0)"
  by (auto simp: create_service_def services_def Service_def alloc_def
           split: option.splits if_splits)

lemma resolve_all_Cons:
  "resolve_all lsn (n # ns) rp h = (rs, rp', h') \<longleftrightarrow>
     (\<exists>r rp1 h1 rs1. create_service lsn n rp h = (r, rp1, h1)
        \<and> resolve_all lsn ns rp1 h1 = (rs1, rp', h') \<and> rs = r # rs1)"
proof (cases "create_service lsn n rp h")
  case (fields r rp1 h1)
  then show ?thesis
    by (cases "resolve_all lsn ns rp1 h1") auto
qed

lemma resolve_all_length:
  "resolve_all lsn ns rp h = (rs, rp', h') \<Longrightarrow> length rs = length ns"
proof (induction ns arbitrary: rp h rs)
  case Nil
  then show ?case by simp
next
  case (Cons n ns)
  then show ?case unfolding resolve_all_Cons by auto
qed

lemma resolve_all_keeps_known:
  "known lsn rp m r \<Longrightarrow> resolve_all lsn ns rp h = (rs, rp', h') \<Longrightarrow> known lsn rp' m r"
proof (induction ns arbitrary: rp h rs)
  case Nil
  then show ?case by simp
next
  case (Cons n ns)
  from Cons.prems(2) obtain r1 rp1 h1 rs1 where
    c: "create_service lsn n rp h = (r1, rp1, h1)" and
    r: "resolve_all lsn ns rp1 h1 = (rs1, rp', h')"
    unfolding resolve_all_Cons by blast
  show ?case
    using Cons.IH[OF create_service_keeps_known[OF Cons.prems(1) c] r] .
qed

lemma resolve_all_known:
  "resolve_all lsn ns rp h = (rs, rp', h') \<Longrightarrow> i < length ns \<Longrightarrow> known lsn rp' (ns ! i) (rs ! i)"
proof (induction ns arbitrary: rp h rs i)
  case Nil
  then show ?case by simp
next
  case (Cons n ns)
  from Cons.prems(1) obtain r1 rp1 h1 rs1 where
    c: "create_service lsn n rp h = (r1, rp1, h1)" and
    r: "resolve_all lsn ns rp1 h1 = (rs1, rp', h')" and rs: "rs = r1 # rs1"
    unfolding resolve_all_Cons by blast
  show ?case
  proof (cases i)
    case 0
    then show ?thesis
      using resolve_all_keeps_known[OF create_service_known[OF c] r] rs by simp
  next
    case (Suc k)
    then show ?thesis
      using Cons.IH[OF r, of k] Cons.prems(2) rs by simp
  qed
qed

lemma resolve_all_services:
  "resolve_all lsn ns rp h = (rs, rp', h') \<Longrightarrow>
     services n h' + (if n \<in> dom (cache rp) then 1 else 0)
       = services n h + (if n \<in> dom (cache rp') then 1 else 0)"
proof (induction ns arbitrary: rp h rs)
  case Nil
  then show ?case by simp
next
  case (Cons m ns)
  from Cons.prems obtain r1 rp1 h1 rs1 where
    c: "create_service lsn m rp h = (r1, rp1, h1)" and
    r: "resolve_all lsn ns rp1 h1 = (rs1, rp', h')"
    unfolding resolve_all_Cons by blast
  show ?case
    using create_service_services[OF c, of n] Cons.IH[OF r] by (simp split: if_splits)
qed

text \<open>
  C3. On a repository made by \<^verbatim>\<open>ServiceRepository\<close>, in any sequence of calls of
  \<^verbatim>\<open>create_service\<close>, two calls with the same name, the reserved name included,
  return the same reference, and for every name the sequence constructs at most one
  \<^verbatim>\<open>Service\<close> of that name.
\<close>

theorem cache_idempotence:
  assumes "ServiceRepository eps h0 = (rp0, h1)" and "resolve_all lsn ns rp0 h1 = (rs, rp, h)"
  shows "length rs = length ns
         \<and> (\<forall>i<length ns. \<forall>j<length ns. ns ! i = ns ! j \<longrightarrow> rs ! i = rs ! j)
         \<and> (\<forall>n. services n h \<le> services n h0 + 1)"
proof -
  have same: "\<forall>i<length ns. \<forall>j<length ns. ns ! i = ns ! j \<longrightarrow> rs ! i = rs ! j"
  proof (intro allI impI)
    fix i j assume i: "i < length ns" and j: "j < length ns" and eq: "ns ! i = ns ! j"
    have "known lsn rp (ns ! i) (rs ! i)" using resolve_all_known[OF assms(2) i] .
    moreover have "known lsn rp (ns ! i) (rs ! j)" using resolve_all_known[OF assms(2) j] eq by simp
    ultimately show "rs ! i = rs ! j" by (rule known_fun)
  qed
  have init: "cache rp0 = Map.empty" "h1 = h0 @ [LocatorObj eps]"
    using assms(1) by (auto simp: ServiceRepository_def Locator_def alloc_def)
  have count: "\<forall>n. services n h \<le> services n h0 + 1"
  proof
    fix n
    have "services n h1 = services n h0" by (simp add: init services_def)
    then show "services n h \<le> services n h0 + 1"
      using resolve_all_services[OF assms(2), of n] by (simp add: init split: if_splits)
  qed
  show ?thesis using resolve_all_length[OF assms(2)] same count by blast
qed

theorem cache_idempotence_witness:
  "fst (resolve_all ''locator'' [''storage'', ''locator'', ''storage'', ''locator'']
         (fst (ServiceRepository [(''localhost'', 10053)] []))
         (snd (ServiceRepository [(''localhost'', 10053)] []))) ! 0
     = fst (resolve_all ''locator'' [''storage'', ''locator'', ''storage'', ''locator'']
         (fst (ServiceRepository [(''localhost'', 10053)] []))
         (snd (ServiceRepository [(''localhost'', 10053)] []))) ! 2
   \<and> fst (resolve_all ''locator'' [''storage'', ''locator'', ''storage'', ''locator'']
         (fst (ServiceRepository [(''localhost'', 10053)] []))
         (snd (ServiceRepository [(''localhost'', 10053)] []))) ! 1
     = fst (resolve_all ''locator'' [''storage'', ''locator'', ''storage'', ''locator'']
         (fst (ServiceRepository [(''localhost'', 10053)] []))
         (snd (ServiceRepository [(''localhost'', 10053)] []))) ! 3
   \<and> services ''storage'' (snd (snd (resolve_all ''locator''
         [''storage'', ''locator'', ''storage'', ''locator'']
         (fst (ServiceRepository [(''localhost'', 10053)] []))
         (snd (ServiceRepository [(''localhost'', 10053)] []))))) \<le> 1"
proof -
  let ?ns = "[''storage'', ''locator'', ''storage'', ''locator'']"
  let ?init = "ServiceRepository [(''localhost'', 10053)] []"
  let ?run = "resolve_all ''locator'' ?ns (fst ?init) (snd ?init)"
  have a: "?init = (fst ?init, snd ?init)" by simp
  have b: "?run = (fst ?run, fst (snd ?run), snd (snd ?run))" by simp
  note c = cache_idempotence[OF a b]
  from c have same: "\<forall>i<length ?ns. \<forall>j<length ?ns. ?ns ! i = ?ns ! j \<longrightarrow> fst ?run ! i = fst ?run ! j"
    by blast
  have "(0::nat) < length ?ns" "(2::nat) < length ?ns" "?ns ! 0 = ?ns ! 2" by simp_all
  with same have s1: "fst ?run ! 0 = fst ?run ! 2" by blast
  have "(1::nat) < length ?ns" "(3::nat) < length ?ns" "?ns ! 1 = ?ns ! 3" by simp_all
  with same have s2: "fst ?run ! 1 = fst ?run ! 3" by blast
  from c have "services ''storage'' (snd (snd ?run)) \<le> services ''storage'' [] + 1" by blast
  then have s3: "services ''storage'' (snd (snd ?run)) \<le> 1" by (simp add: services_def)
  show ?thesis using s1 s2 s3 by blast
qed

section \<open>The cache of adaptors\<close>

lemma create_service_cache_secured:
  "create_service lsn n rp h = (r, rp', h') \<Longrightarrow> cache_secured rp' = cache_secured rp"
  by (auto simp: create_service_def Service_def alloc_def split: option.splits if_splits)

lemma create_secure_service_hit:
  "cache_secured rp n = Some r \<Longrightarrow> create_secure_service lsn n rp h = (r, rp, h)"
  by (simp add: create_secure_service_def)

lemma create_secure_service_miss:
  assumes "cache_secured rp n = None" and "create_service lsn n rp h = (w, rp1, h1)"
  shows "create_secure_service lsn n rp h =
           (length h1,
            rp1\<lparr>cache_secured := (cache_secured rp)(n \<mapsto> length h1)\<rparr>,
            h1 @ [AdaptorObj (SecureServiceAdaptor w (secure_provider rp1)
                                (repo_token_expiration_s rp1))])"
  using assms create_service_cache_secured[OF assms(2)]
  by (simp add: create_secure_service_def alloc_def)

lemma create_secure_service_cases:
  assumes "create_secure_service lsn n rp h = (r, rp', h')"
  obtains (hit) "cache_secured rp n = Some r" "rp' = rp" "h' = h"
  | (miss) w rp1 h1 where "cache_secured rp n = None"
      "create_service lsn n rp h = (w, rp1, h1)" "r = length h1"
      "rp' = rp1\<lparr>cache_secured := (cache_secured rp)(n \<mapsto> length h1)\<rparr>"
      "h' = h1 @ [AdaptorObj (SecureServiceAdaptor w (secure_provider rp1)
                                (repo_token_expiration_s rp1))]"
proof (cases "cache_secured rp n")
  case None
  let ?c = "create_service lsn n rp h"
  have c: "?c = (fst ?c, fst (snd ?c), snd (snd ?c))" by simp
  have t: "(r, rp', h') =
           (length (snd (snd ?c)),
            (fst (snd ?c))\<lparr>cache_secured := (cache_secured rp)(n \<mapsto> length (snd (snd ?c)))\<rparr>,
            snd (snd ?c) @ [AdaptorObj (SecureServiceAdaptor (fst ?c)
                                (secure_provider (fst (snd ?c)))
                                (repo_token_expiration_s (fst (snd ?c))))])"
    by (rule trans[OF assms[symmetric] create_secure_service_miss[OF None c]])
  note t' = t[unfolded prod.inject]
  show ?thesis
    by (rule miss[OF None c conjunct1[OF t'] conjunct1[OF conjunct2[OF t']]
          conjunct2[OF conjunct2[OF t']]])
next
  case (Some r0)
  have t: "(r, rp', h') = (r0, rp, h)"
    by (rule trans[OF assms[symmetric] create_secure_service_hit[OF Some]])
  note t' = t[unfolded prod.inject]
  have s: "cache_secured rp n = Some r" using Some conjunct1[OF t'] by simp
  show ?thesis
    by (rule hit[OF s conjunct1[OF conjunct2[OF t']] conjunct2[OF conjunct2[OF t']]])
qed

lemma known_cache_secured_update:
  "known lsn (rp\<lparr>cache_secured := cs\<rparr>) m r = known lsn rp m r"
  by (simp add: known_def)

lemma serve_remembered:
  "serve lsn q rp h = (r, rp', h') \<Longrightarrow> remembered lsn rp' q r"
proof (cases q)
  case (Resolve n)
  assume "serve lsn q rp h = (r, rp', h')"
  then show ?thesis using Resolve create_service_known[of lsn n rp h r rp' h'] by simp
next
  case (ResolveSecure n)
  assume "serve lsn q rp h = (r, rp', h')"
  then have c: "create_secure_service lsn n rp h = (r, rp', h')" using ResolveSecure by simp
  show ?thesis using c ResolveSecure
    by (cases rule: create_secure_service_cases) simp_all
qed

lemma create_secure_service_keeps_known:
  assumes "known lsn rp m r" and "create_secure_service lsn n rp h = (r', rp', h')"
  shows "known lsn rp' m r"
  using assms(2)
proof (cases rule: create_secure_service_cases)
  case hit
  then show ?thesis using assms(1) by simp
next
  case (miss w rp1 h1)
  then show ?thesis
    using create_service_keeps_known[OF assms(1) miss(2)]
    by (simp add: known_cache_secured_update)
qed

lemma create_secure_service_keeps_secured:
  assumes "cache_secured rp m = Some r" and "create_secure_service lsn n rp h = (r', rp', h')"
  shows "cache_secured rp' m = Some r"
  using assms(2)
proof (cases rule: create_secure_service_cases)
  case hit
  then show ?thesis using assms(1) by simp
next
  case (miss w rp1 h1)
  then show ?thesis using assms(1) by auto
qed

lemma serve_keeps_remembered:
  assumes "remembered lsn rp q0 r0" and "serve lsn q rp h = (r, rp', h')"
  shows "remembered lsn rp' q0 r0"
proof (cases q)
  case (Resolve n)
  then have c: "create_service lsn n rp h = (r, rp', h')" using assms(2) by simp
  show ?thesis
    using assms(1) create_service_keeps_known[OF _ c] create_service_cache_secured[OF c]
    by (cases q0) simp_all
next
  case (ResolveSecure n)
  then have c: "create_secure_service lsn n rp h = (r, rp', h')" using assms(2) by simp
  show ?thesis
    using assms(1) create_secure_service_keeps_known[OF _ c]
      create_secure_service_keeps_secured[OF _ c]
    by (cases q0) simp_all
qed

lemma remembered_fun: "remembered lsn rp q r \<Longrightarrow> remembered lsn rp q r' \<Longrightarrow> r = r'"
  by (cases q) (auto dest: known_fun)

lemma serve_all_Cons:
  "serve_all lsn (q # qs) rp h = (rs, rp', h') \<longleftrightarrow>
     (\<exists>r rp1 h1 rs1. serve lsn q rp h = (r, rp1, h1)
        \<and> serve_all lsn qs rp1 h1 = (rs1, rp', h') \<and> rs = r # rs1)"
proof (cases "serve lsn q rp h")
  case (fields r rp1 h1)
  then show ?thesis
    by (cases "serve_all lsn qs rp1 h1") auto
qed

lemma serve_all_keeps_remembered:
  "remembered lsn rp q0 r0 \<Longrightarrow> serve_all lsn qs rp h = (rs, rp', h') \<Longrightarrow> remembered lsn rp' q0 r0"
proof (induction qs arbitrary: rp h rs)
  case Nil
  then show ?case by simp
next
  case (Cons q qs)
  from Cons.prems(2) obtain r1 rp1 h1 rs1 where
    c: "serve lsn q rp h = (r1, rp1, h1)" and
    r: "serve_all lsn qs rp1 h1 = (rs1, rp', h')"
    unfolding serve_all_Cons by blast
  show ?case
    using Cons.IH[OF serve_keeps_remembered[OF Cons.prems(1) c] r] .
qed

lemma serve_all_remembered:
  "serve_all lsn qs rp h = (rs, rp', h') \<Longrightarrow> i < length qs
     \<Longrightarrow> remembered lsn rp' (qs ! i) (rs ! i)"
proof (induction qs arbitrary: rp h rs i)
  case Nil
  then show ?case by simp
next
  case (Cons q qs)
  from Cons.prems(1) obtain r1 rp1 h1 rs1 where
    c: "serve lsn q rp h = (r1, rp1, h1)" and
    r: "serve_all lsn qs rp1 h1 = (rs1, rp', h')" and rs: "rs = r1 # rs1"
    unfolding serve_all_Cons by blast
  show ?case
  proof (cases i)
    case 0
    then show ?thesis
      using serve_all_keeps_remembered[OF serve_remembered[OF c] r] rs by simp
  next
    case (Suc k)
    then show ?thesis
      using Cons.IH[OF r, of k] Cons.prems(2) rs by simp
  qed
qed

lemma create_service_wraps_cached:
  assumes "wraps_cached lsn rp h" and "create_service lsn n rp h = (r, rp', h')"
  shows "wraps_cached lsn rp' h'"
proof -
  obtain xs where h': "h' = h @ xs" using create_service_heap[OF assms(2)] by blast
  show ?thesis
    unfolding wraps_cached_def
  proof (intro allI impI)
    fix m r0 assume "cache_secured rp' m = Some r0"
    then have "cache_secured rp m = Some r0"
      using create_service_cache_secured[OF assms(2)] by simp
    then obtain a where "r0 < length h" "h ! r0 = AdaptorObj a" "known lsn rp m (wrapped a)"
      using assms(1) unfolding wraps_cached_def by blast
    then show "r0 < length h' \<and> (\<exists>a. h' ! r0 = AdaptorObj a \<and> known lsn rp' m (wrapped a))"
      using create_service_keeps_known[OF _ assms(2)] by (auto simp: h' nth_append)
  qed
qed

lemma create_secure_service_wraps_cached:
  assumes "wraps_cached lsn rp h" and "create_secure_service lsn n rp h = (r, rp', h')"
  shows "wraps_cached lsn rp' h'"
  using assms(2)
proof (cases rule: create_secure_service_cases)
  case hit
  then show ?thesis using assms(1) by simp
next
  case (miss w rp1 h1)
  have w1: "wraps_cached lsn rp1 h1"
    using create_service_wraps_cached[OF assms(1) miss(2)] .
  have cs: "cache_secured rp1 = cache_secured rp"
    using create_service_cache_secured[OF miss(2)] .
  have kw: "known lsn rp1 n w" using create_service_known[OF miss(2)] .
  show ?thesis
    unfolding wraps_cached_def
  proof (intro allI impI)
    fix m r0 assume c: "cache_secured rp' m = Some r0"
    show "r0 < length h' \<and> (\<exists>a. h' ! r0 = AdaptorObj a \<and> known lsn rp' m (wrapped a))"
    proof (cases "m = n")
      case True
      then have "r0 = length h1" using c miss(4) by simp
      then show ?thesis
        using kw True miss(4,5)
        by (simp add: known_cache_secured_update SecureServiceAdaptor_def)
    next
      case False
      then have "cache_secured rp1 m = Some r0" using c miss(4) cs by simp
      then obtain a where "r0 < length h1" "h1 ! r0 = AdaptorObj a" "known lsn rp1 m (wrapped a)"
        using w1 unfolding wraps_cached_def by blast
      then show ?thesis
        using miss(4,5) by (auto simp: nth_append known_cache_secured_update)
    qed
  qed
qed

lemma serve_all_wraps_cached:
  "wraps_cached lsn rp h \<Longrightarrow> serve_all lsn qs rp h = (rs, rp', h') \<Longrightarrow> wraps_cached lsn rp' h'"
proof (induction qs arbitrary: rp h rs)
  case Nil
  then show ?case by simp
next
  case (Cons q qs)
  from Cons.prems(2) obtain r1 rp1 h1 rs1 where
    c: "serve lsn q rp h = (r1, rp1, h1)" and
    r: "serve_all lsn qs rp1 h1 = (rs1, rp', h')"
    unfolding serve_all_Cons by blast
  have w1: "wraps_cached lsn rp1 h1"
  proof (cases q)
    case (Resolve n)
    then have "create_service lsn n rp h = (r1, rp1, h1)" using c by simp
    then show ?thesis by (rule create_service_wraps_cached[OF Cons.prems(1)])
  next
    case (ResolveSecure n)
    then have "create_secure_service lsn n rp h = (r1, rp1, h1)" using c by simp
    then show ?thesis by (rule create_secure_service_wraps_cached[OF Cons.prems(1)])
  qed
  show ?case by (rule Cons.IH[OF w1 r])
qed

lemma SecureServiceRepository_fresh:
  "SecureServiceRepository eps mode ts kw h0 = Inr (rp0, h1) \<Longrightarrow> cache_secured rp0 = Map.empty"
  by (auto simp: SecureServiceRepository_def split: prod.splits sum.splits)

text \<open>
  C6. On a secure repository, in any sequence of calls of \<^verbatim>\<open>create_service\<close> and
  \<^verbatim>\<open>create_secure_service\<close>, two calls of the same method with the same name return the
  same reference; what \<^verbatim>\<open>create_secure_service\<close> returned for a name is an adaptor
  object of the heap, and the handle it wraps is the one \<^verbatim>\<open>create_service\<close> returns
  for that name, in the sequence and after it.
\<close>

theorem secure_cache_composition:
  assumes "SecureServiceRepository eps mode ts kw h0 = Inr (rp0, h1)"
    and "serve_all lsn qs rp0 h1 = (rs, rp, h)"
  shows "(\<forall>i<length qs. \<forall>j<length qs. qs ! i = qs ! j \<longrightarrow> rs ! i = rs ! j)
         \<and> (\<forall>i<length qs. \<forall>n. qs ! i = ResolveSecure n \<longrightarrow>
               rs ! i < length h
               \<and> (\<exists>a. h ! (rs ! i) = AdaptorObj a
                      \<and> create_service lsn n rp h = (wrapped a, rp, h)
                      \<and> (\<forall>j<length qs. qs ! j = Resolve n \<longrightarrow> rs ! j = wrapped a)))"
proof -
  have same: "\<forall>i<length qs. \<forall>j<length qs. qs ! i = qs ! j \<longrightarrow> rs ! i = rs ! j"
  proof (intro allI impI)
    fix i j assume i: "i < length qs" and j: "j < length qs" and eq: "qs ! i = qs ! j"
    have "remembered lsn rp (qs ! i) (rs ! i)" using serve_all_remembered[OF assms(2) i] .
    moreover have "remembered lsn rp (qs ! i) (rs ! j)"
      using serve_all_remembered[OF assms(2) j] eq by simp
    ultimately show "rs ! i = rs ! j" by (rule remembered_fun)
  qed
  have "wraps_cached lsn rp0 h1"
    using SecureServiceRepository_fresh[OF assms(1)] by (simp add: wraps_cached_def)
  then have inv: "wraps_cached lsn rp h" using serve_all_wraps_cached assms(2) by blast
  have wraps: "\<forall>i<length qs. \<forall>n. qs ! i = ResolveSecure n \<longrightarrow>
               rs ! i < length h
               \<and> (\<exists>a. h ! (rs ! i) = AdaptorObj a
                      \<and> create_service lsn n rp h = (wrapped a, rp, h)
                      \<and> (\<forall>j<length qs. qs ! j = Resolve n \<longrightarrow> rs ! j = wrapped a))"
  proof (intro allI impI)
    fix i n assume i: "i < length qs" and q: "qs ! i = ResolveSecure n"
    have "cache_secured rp n = Some (rs ! i)"
      using serve_all_remembered[OF assms(2) i] q by simp
    then obtain a where a: "rs ! i < length h" "h ! (rs ! i) = AdaptorObj a"
        "known lsn rp n (wrapped a)"
      using inv unfolding wraps_cached_def by blast
    have "\<forall>j<length qs. qs ! j = Resolve n \<longrightarrow> rs ! j = wrapped a"
    proof (intro allI impI)
      fix j assume j: "j < length qs" and qj: "qs ! j = Resolve n"
      have "known lsn rp n (rs ! j)" using serve_all_remembered[OF assms(2) j] qj by simp
      then show "rs ! j = wrapped a" using a(3) by (rule known_fun)
    qed
    then show "rs ! i < length h
               \<and> (\<exists>a. h ! (rs ! i) = AdaptorObj a
                      \<and> create_service lsn n rp h = (wrapped a, rp, h)
                      \<and> (\<forall>j<length qs. qs ! j = Resolve n \<longrightarrow> rs ! j = wrapped a))"
      using a known_create_service[OF a(3), of h] by blast
  qed
  show ?thesis using same wraps by blast
qed

theorem secure_cache_composition_witness:
  "fst (serve_all ''locator''
         [ResolveSecure ''storage'', Resolve ''storage'', ResolveSecure ''storage'']
         \<lparr>locator = 0, cache = Map.empty, repo_token_expiration_s = 60,
           secure_provider = TVM (Some 1) creds, cache_secured = Map.empty\<rparr>
         [LocatorObj [(''localhost'', 10053)],
          ServiceObj ''tvm'' (Endpoints [(''localhost'', 10053)])]) ! 0
     = fst (serve_all ''locator''
         [ResolveSecure ''storage'', Resolve ''storage'', ResolveSecure ''storage'']
         \<lparr>locator = 0, cache = Map.empty, repo_token_expiration_s = 60,
           secure_provider = TVM (Some 1) creds, cache_secured = Map.empty\<rparr>
         [LocatorObj [(''localhost'', 10053)],
          ServiceObj ''tvm'' (Endpoints [(''localhost'', 10053)])]) ! 2
   \<and> (\<exists>a. snd (snd (serve_all ''locator''
         [ResolveSecure ''storage'', Resolve ''storage'', ResolveSecure ''storage'']
         \<lparr>locator = 0, cache = Map.empty, repo_token_expiration_s = 60,
           secure_provider = TVM (Some 1) creds, cache_secured = Map.empty\<rparr>
         [LocatorObj [(''localhost'', 10053)],
          ServiceObj ''tvm'' (Endpoints [(''localhost'', 10053)])]))
         ! (fst (serve_all ''locator''
         [ResolveSecure ''storage'', Resolve ''storage'', ResolveSecure ''storage'']
         \<lparr>locator = 0, cache = Map.empty, repo_token_expiration_s = 60,
           secure_provider = TVM (Some 1) creds, cache_secured = Map.empty\<rparr>
         [LocatorObj [(''localhost'', 10053)],
          ServiceObj ''tvm'' (Endpoints [(''localhost'', 10053)])]) ! 0) = AdaptorObj a
       \<and> fst (serve_all ''locator''
         [ResolveSecure ''storage'', Resolve ''storage'', ResolveSecure ''storage'']
         \<lparr>locator = 0, cache = Map.empty, repo_token_expiration_s = 60,
           secure_provider = TVM (Some 1) creds, cache_secured = Map.empty\<rparr>
         [LocatorObj [(''localhost'', 10053)],
          ServiceObj ''tvm'' (Endpoints [(''localhost'', 10053)])]) ! 1 = wrapped a)"
proof -
  let ?eps = "[(''localhost'', 10053)]"
  let ?kw = "[''client_id'' \<mapsto> PyStr ''id'', ''client_secret'' \<mapsto> PyStr ''secret'']"
  let ?rp0 = "\<lparr>locator = 0, cache = Map.empty, repo_token_expiration_s = 60,
           secure_provider = TVM (Some 1) creds, cache_secured = Map.empty\<rparr>"
  let ?h1 = "[LocatorObj ?eps, ServiceObj ''tvm'' (Endpoints ?eps)]"
  let ?qs = "[ResolveSecure ''storage'', Resolve ''storage'', ResolveSecure ''storage'']"
  let ?run = "serve_all ''locator'' ?qs ?rp0 ?h1"
  have a: "SecureServiceRepository ?eps ''TVM'' 60 ?kw [] = Inr (?rp0, ?h1)"
    by (simp add: SecureServiceRepository_def ServiceRepository_def Locator_def alloc_def
          create_ticket_service_def call_create_secure_provider_def
          create_secure_provider_def Credentials_def Service_def
          TVM_TYPE_def TVM2_TYPE_def)
  have b: "?run = (fst ?run, fst (snd ?run), snd (snd ?run))" by simp
  note c = secure_cache_composition[OF a b]
  from c have same: "\<forall>i<length ?qs. \<forall>j<length ?qs. ?qs ! i = ?qs ! j \<longrightarrow> fst ?run ! i = fst ?run ! j"
    by (rule conjunct1)
  have "(0::nat) < length ?qs" "(2::nat) < length ?qs" "?qs ! 0 = ?qs ! 2" by simp_all
  with same have s1: "fst ?run ! 0 = fst ?run ! 2" by blast
  from c have wraps: "\<forall>i<length ?qs. \<forall>n. ?qs ! i = ResolveSecure n \<longrightarrow>
               fst ?run ! i < length (snd (snd ?run))
               \<and> (\<exists>a. snd (snd ?run) ! (fst ?run ! i) = AdaptorObj a
                      \<and> create_service ''locator'' n (fst (snd ?run)) (snd (snd ?run))
                          = (wrapped a, fst (snd ?run), snd (snd ?run))
                      \<and> (\<forall>j<length ?qs. ?qs ! j = Resolve n \<longrightarrow> fst ?run ! j = wrapped a))"
    by (rule conjunct2)
  have i0: "(0::nat) < length ?qs" "?qs ! 0 = ResolveSecure ''storage''" by simp_all
  have j1: "(1::nat) < length ?qs" "?qs ! 1 = Resolve ''storage''" by simp_all
  from wraps i0 obtain a where
    a1: "snd (snd ?run) ! (fst ?run ! 0) = AdaptorObj a" and
    a2: "\<forall>j<length ?qs. ?qs ! j = Resolve ''storage'' \<longrightarrow> fst ?run ! j = wrapped a"
    by blast
  from a2 j1 have "fst ?run ! 1 = wrapped a" by blast
  with a1 s1 show ?thesis by blast
qed

section \<open>Unknown modes\<close>

lemma wrapper_promiscuous:
  assumes "secure a = Promiscuous" and "token a \<in> {PyNone, PyStr ''''}"
  shows "secure (fst (snd (wrapper e a name args kw))) = Promiscuous"
    and "token (fst (snd (wrapper e a name args kw))) \<in> {PyNone, PyStr ''''}"
    and "filter is_ticket_request (snd (snd (wrapper e a name args kw))) = []"
    and "length (filter is_forward (snd (snd (wrapper e a name args kw)))) = 1"
proof -
  have "secure (fst (snd (wrapper e a name args kw))) = Promiscuous
        \<and> token (fst (snd (wrapper e a name args kw))) \<in> {PyNone, PyStr ''''}
        \<and> filter is_ticket_request (snd (snd (wrapper e a name args kw))) = []
        \<and> length (filter is_forward (snd (snd (wrapper e a name args kw)))) = 1"
  proof (cases e a rule: get_token_cases)
    case reuse
    then show ?thesis using assms by (simp add: wrapper_ok)
  next
    case (fail err)
    then show ?thesis using assms by simp
  next
    case (fetched tk)
    then show ?thesis using assms by (simp add: wrapper_ok)
  qed
  then show "secure (fst (snd (wrapper e a name args kw))) = Promiscuous"
    and "token (fst (snd (wrapper e a name args kw))) \<in> {PyNone, PyStr ''''}"
    and "filter is_ticket_request (snd (snd (wrapper e a name args kw))) = []"
    and "length (filter is_forward (snd (snd (wrapper e a name args kw)))) = 1"
    by blast+
qed

lemma run_promiscuous:
  "secure a = Promiscuous \<Longrightarrow> token a \<in> {PyNone, PyStr ''''} \<Longrightarrow>
     secure (fst (snd (run a cs))) = Promiscuous
     \<and> token (fst (snd (run a cs))) \<in> {PyNone, PyStr ''''}
     \<and> filter is_ticket_request (snd (snd (run a cs))) = []
     \<and> length (filter is_forward (snd (snd (run a cs)))) = length cs"
proof (induction cs arbitrary: a)
  case Nil
  then show ?case by simp
next
  case (Cons c cs)
  let ?w = "wrapper (c_env c) a (c_name c) (c_args c) (c_kwargs c)"
  note w = wrapper_promiscuous[OF Cons.prems, of "c_env c" "c_name c" "c_args c" "c_kwargs c"]
  note ih = Cons.IH[OF w(1) w(2)]
  have r: "run a (c # cs) =
             (fst ?w # fst (run (fst (snd ?w)) cs), fst (snd (run (fst (snd ?w)) cs)),
              snd (snd ?w) @ snd (snd (run (fst (snd ?w)) cs)))"
    by (simp add: split_beta)
  have s: "secure (fst (snd (run a (c # cs)))) = Promiscuous"
    using ih by (simp only: r fst_conv snd_conv)
  have t: "token (fst (snd (run a (c # cs)))) \<in> {PyNone, PyStr ''''}"
    using ih by (simp only: r fst_conv snd_conv)
  have q: "filter is_ticket_request (snd (snd (run a (c # cs)))) = []"
    using ih w(3) by (simp only: r fst_conv snd_conv filter_append append_Nil)
  have f: "length (filter is_forward (snd (snd (run a (c # cs))))) = length (c # cs)"
    using ih w(4) by (simp only: r fst_conv snd_conv filter_append) simp
  show ?case using s t q f by blast
qed

lemma call_create_secure_provider_collision:
  "kw ''ticket_service'' = Some v \<Longrightarrow>
     call_create_secure_provider mode tsvc kw = Inl (Exception ''TypeError'')"
  by (simp add: call_create_secure_provider_def split: option.splits)

text \<open>
  C9. For a mode that is neither \<open>TVM\<close> nor \<open>TVM2\<close>:
  \<^verbatim>\<open>create_ticket_service\<close> returns \<^verbatim>\<open>None\<close> and leaves the heap as it is, and
  \<^verbatim>\<open>create_secure_provider\<close> returns the Promiscuous provider without an error,
  whatever the keyword arguments. The factory and the constructor of the secure
  repository, which allocates its locator only, return without an error as well when the
  keyword arguments they pass on do not name a parameter of
  \<^verbatim>\<open>create_secure_provider\<close> (the mode-specific arguments are the credentials); with a
  keyword \<^verbatim>\<open>ticket_service\<close> the call raises, as
  \<open>call_create_secure_provider_collision\<close> shows. The fetch of the provider returns the
  empty string and sends nothing; in any sequence of calls on the adaptor the provider
  stays the same, no request goes to a ticket service, every call reaches the wrapped
  handle, and the stored token is \<^verbatim>\<open>None\<close> (nothing fetched yet) or the empty string.
\<close>

theorem unknown_mode_null_provider:
  assumes "mode \<noteq> ''TVM''" and "mode \<noteq> ''TVM2''"
    and "kw ''mod'' = None" and "kw ''ticket_service'' = None"
  shows "create_ticket_service mode eps h = (None, h)
         \<and> create_secure_provider mode tsvc kw' = Inr Promiscuous
         \<and> make_secure_adaptor svc seps epo mode ts kw h
             = Inr (SecureServiceAdaptor svc Promiscuous ts, h)
         \<and> SecureServiceRepository eps mode ts kw h
             = Inr (\<lparr>locator = length h, cache = Map.empty, repo_token_expiration_s = ts,
                      secure_provider = Promiscuous, cache_secured = Map.empty\<rparr>,
                    h @ [LocatorObj eps])
         \<and> fetch_token Promiscuous e = (Inr '''', [])
         \<and> secure (fst (snd (run (SecureServiceAdaptor svc Promiscuous ts) cs))) = Promiscuous
         \<and> token (fst (snd (run (SecureServiceAdaptor svc Promiscuous ts) cs)))
             \<in> {PyNone, PyStr ''''}
         \<and> filter is_ticket_request
               (snd (snd (run (SecureServiceAdaptor svc Promiscuous ts) cs))) = []
         \<and> length (filter is_forward
               (snd (snd (run (SecureServiceAdaptor svc Promiscuous ts) cs)))) = length cs"
proof -
  have t: "create_ticket_service mode eps h = (None, h)" for eps h
    using assms(1,2) by (simp add: create_ticket_service_def TVM_TYPE_def TVM2_TYPE_def)
  have p: "create_secure_provider mode tsvc kw' = Inr Promiscuous" for tsvc kw'
    using assms(1,2) by (simp add: create_secure_provider_def TVM_TYPE_def TVM2_TYPE_def)
  have c: "call_create_secure_provider mode tsvc kw = Inr Promiscuous" for tsvc
    using assms(3,4) by (simp add: call_create_secure_provider_def p)
  have m: "make_secure_adaptor svc seps epo mode ts kw h
             = Inr (SecureServiceAdaptor svc Promiscuous ts, h)"
    by (simp add: make_secure_adaptor_def t c)
  have r: "SecureServiceRepository eps mode ts kw h
             = Inr (\<lparr>locator = length h, cache = Map.empty, repo_token_expiration_s = ts,
                      secure_provider = Promiscuous, cache_secured = Map.empty\<rparr>,
                    h @ [LocatorObj eps])"
    by (simp add: SecureServiceRepository_def ServiceRepository_def Locator_def alloc_def t c)
  have s: "secure (SecureServiceAdaptor svc Promiscuous ts) = Promiscuous"
    "token (SecureServiceAdaptor svc Promiscuous ts) \<in> {PyNone, PyStr ''''}"
    by (simp_all add: SecureServiceAdaptor_def)
  note run = run_promiscuous[OF s, of cs]
  have f: "fetch_token Promiscuous e = (Inr '''', [])" by simp
  show ?thesis using t p m r f run by blast
qed

theorem unknown_mode_null_provider_witness:
  "make_secure_adaptor 0 [(''localhost'', 10053)] None ''bogus'' 0
       [''client_id'' \<mapsto> PyStr ''id''] [LocatorObj [(''localhost'', 10053)]]
     = Inr (SecureServiceAdaptor 0 Promiscuous 0, [LocatorObj [(''localhost'', 10053)]])
   \<and> SecureServiceRepository [(''localhost'', 10053)] ''bogus'' 0
       [''client_id'' \<mapsto> PyStr ''id''] [LocatorObj [(''localhost'', 10053)]]
     = Inr (\<lparr>locator = length [LocatorObj [(''localhost'', 10053)]], cache = Map.empty,
              repo_token_expiration_s = 0, secure_provider = Promiscuous,
              cache_secured = Map.empty\<rparr>,
            [LocatorObj [(''localhost'', 10053)]] @ [LocatorObj [(''localhost'', 10053)]])
   \<and> filter is_ticket_request (snd (snd (run (SecureServiceAdaptor 0 Promiscuous 0)
        [get_at 100 101 (Inl (Exception ''unreachable'')),
         get_at 130 131 (Inl (Exception ''unreachable''))]))) = []
   \<and> length (filter is_forward (snd (snd (run (SecureServiceAdaptor 0 Promiscuous 0)
        [get_at 100 101 (Inl (Exception ''unreachable'')),
         get_at 130 131 (Inl (Exception ''unreachable''))])))) = 2"
proof -
  have h1: "''bogus'' \<noteq> ''TVM''" by simp
  have h2: "''bogus'' \<noteq> ''TVM2''" by simp
  have h3: "[''client_id'' \<mapsto> PyStr ''id''] ''mod'' = None" by simp
  have h4: "[''client_id'' \<mapsto> PyStr ''id''] ''ticket_service'' = None" by simp
  note c = unknown_mode_null_provider[OF h1 h2 h3 h4,
      where svc = 0 and seps = "[(''localhost'', 10053)]" and epo = None and ts = 0
        and eps = "[(''localhost'', 10053)]"
        and h = "[LocatorObj [(''localhost'', 10053)]]"
        and cs = "[get_at 100 101 (Inl (Exception ''unreachable'')),
                   get_at 130 131 (Inl (Exception ''unreachable''))]"]
  from c have c1: "make_secure_adaptor 0 [(''localhost'', 10053)] None ''bogus'' 0
       [''client_id'' \<mapsto> PyStr ''id''] [LocatorObj [(''localhost'', 10053)]]
     = Inr (SecureServiceAdaptor 0 Promiscuous 0, [LocatorObj [(''localhost'', 10053)]])"
    by blast
  from c have c0: "SecureServiceRepository [(''localhost'', 10053)] ''bogus'' 0
       [''client_id'' \<mapsto> PyStr ''id''] [LocatorObj [(''localhost'', 10053)]]
     = Inr (\<lparr>locator = length [LocatorObj [(''localhost'', 10053)]], cache = Map.empty,
              repo_token_expiration_s = 0, secure_provider = Promiscuous,
              cache_secured = Map.empty\<rparr>,
            [LocatorObj [(''localhost'', 10053)]] @ [LocatorObj [(''localhost'', 10053)]])"
    by blast
  from c have c2: "filter is_ticket_request (snd (snd (run (SecureServiceAdaptor 0 Promiscuous 0)
        [get_at 100 101 (Inl (Exception ''unreachable'')),
         get_at 130 131 (Inl (Exception ''unreachable''))]))) = []"
    by blast
  from c have "length (filter is_forward (snd (snd (run (SecureServiceAdaptor 0 Promiscuous 0)
        [get_at 100 101 (Inl (Exception ''unreachable'')),
         get_at 130 131 (Inl (Exception ''unreachable''))]))))
      = length [get_at 100 101 (Inl (Exception ''unreachable'')),
         get_at 130 131 (Inl (Exception ''unreachable''))]"
    by blast
  then have c3: "length (filter is_forward (snd (snd (run (SecureServiceAdaptor 0 Promiscuous 0)
        [get_at 100 101 (Inl (Exception ''unreachable'')),
         get_at 130 131 (Inl (Exception ''unreachable''))])))) = 2"
    by simp
  show ?thesis using c1 c0 c2 c3 by blast
qed

end
